theory Spec2Isabelle
  imports Main "HOL-Library.Word"
begin

unbundle bit_operations_syntax

section \<open>The hues.mul decoder of uo_hues_viewer.py\<close>

text \<open>
  The file is a sequence of bytes. Python integers are unbounded, so the values that
  \<^verbatim>\<open>struct.unpack\<close> produces and the colour arithmetic are on \<open>int\<close>; lengths,
  the byte offset and the running index are counts and live in \<open>nat\<close>.
\<close>

type_synonym byte = "8 word"

subsection \<open>Constants\<close>

text \<open>
  \<^verbatim>\<open>HUE_ENTRY_STRUCT = "<32HHH20s"\<close>: little-endian, no padding: 32 words, two words,
  20 bytes. \<^verbatim>\<open>struct.calcsize\<close> of it is 64 + 2 + 2 + 20.
\<close>

definition HUE_ENTRY_SIZE :: nat where
  "HUE_ENTRY_SIZE = 32 * 2 + 2 + 2 + 20"

definition HUE_GROUP_HEADER_SIZE :: nat where
  "HUE_GROUP_HEADER_SIZE = 4"

definition HUES_PER_GROUP :: nat where
  "HUES_PER_GROUP = 8"

subsection \<open>color16_to_rgb888\<close>

definition color16_to_rgb888 :: "int \<Rightarrow> int \<times> int \<times> int" where
  "color16_to_rgb888 c16 =
     (let r5 = drop_bit 10 c16 AND 0x1F;
          g5 = drop_bit 5 c16 AND 0x1F;
          b5 = c16 AND 0x1F;
          r = (r5 * 255) div 31;
          g = (g5 * 255) div 31;
          b = (b5 * 255) div 31
      in (r, g, b))"

subsection \<open>struct.unpack and the name field\<close>

datatype error = StructError

text \<open>One little-endian \<^verbatim>\<open>H\<close> field: an unsigned 16-bit value from two bytes.\<close>

definition le16 :: "byte \<Rightarrow> byte \<Rightarrow> int" where
  "le16 lo hi = uint lo + 256 * uint hi"

fun words16 :: "byte list \<Rightarrow> int list" where
  "words16 (lo # hi # bs) = le16 lo hi # words16 bs"
| "words16 _ = []"

text \<open>
  \<^verbatim>\<open>struct.unpack(HUE_ENTRY_STRUCT, data)\<close> raises \<^verbatim>\<open>struct.error\<close> unless the buffer
  has exactly the size of the format. The result is the tuple of 35 values, here as
  \<^verbatim>\<open>unpacked[0:32]\<close>, \<^verbatim>\<open>unpacked[32]\<close>, \<^verbatim>\<open>unpacked[33]\<close> and \<^verbatim>\<open>unpacked[34]\<close>.
\<close>

definition unpack :: "byte list \<Rightarrow> error + (int list \<times> int \<times> int \<times> byte list)" where
  "unpack data =
     (if length data \<noteq> HUE_ENTRY_SIZE then Inl StructError
      else Inr (words16 (take 64 data),
                le16 (data ! 64) (data ! 65),
                le16 (data ! 66) (data ! 67),
                take 20 (drop 68 data)))"

text \<open>\<^verbatim>\<open>rawname.split(b"\x00", 1)[0]\<close>: the bytes before the first NUL.\<close>

definition split_nul :: "byte list \<Rightarrow> byte list" where
  "split_nul rawname = takeWhile (\<lambda>b. b \<noteq> 0) rawname"

text \<open>\<^verbatim>\<open>.decode("ascii", errors="ignore")\<close>: a byte above 127 is left out.\<close>

definition decode_ascii_ignore :: "byte list \<Rightarrow> string" where
  "decode_ascii_ignore bs = map (\<lambda>b. char_of (unat b)) (filter (\<lambda>b. b < 128) bs)"

text \<open>
  \<^verbatim>\<open>str.strip()\<close> removes leading and trailing whitespace. Among the code points
  below 128, Python's \<^verbatim>\<open>str.isspace\<close> holds of 9 to 13 and of 28 to 32.
\<close>

definition isspace :: "char \<Rightarrow> bool" where
  "isspace c = (let n = (of_char c :: nat) in (9 \<le> n \<and> n \<le> 13) \<or> (28 \<le> n \<and> n \<le> 32))"

definition strip :: "string \<Rightarrow> string" where
  "strip s = rev (dropWhile isspace (rev (dropWhile isspace s)))"

definition decode_name :: "byte list \<Rightarrow> string" where
  "decode_name rawname = strip (decode_ascii_ignore (split_nul rawname))"

subsection \<open>parse_hues\<close>

text \<open>The dict appended to \<^verbatim>\<open>hues\<close>; the key \<^verbatim>\<open>end\<close> is the field \<open>end'\<close>.\<close>

record hue_entry =
  index :: nat
  name :: string
  start :: int
  end' :: int
  colors16 :: "int list"
  colorsRGB :: "(int \<times> int \<times> int) list"

text \<open>
  The \<^verbatim>\<open>for\<close> loop over the record slots of one group either runs to its end, leaving
  the file object, \<^verbatim>\<open>pos\<close>, \<^verbatim>\<open>idx\<close> and \<^verbatim>\<open>hues\<close> to the code after it, or leaves the
  whole function through \<^verbatim>\<open>return hues\<close>.
\<close>

datatype for_exit =
  Returned "hue_entry list"
| Completed "byte list" nat nat "hue_entry list"

text \<open>
  The file object \<open>f\<close> is the list of the bytes not read yet: \<^verbatim>\<open>f.read(n)\<close> gives
  \<open>take n f\<close> and leaves \<open>drop n f\<close>.
\<close>

fun read_entries :: "nat \<Rightarrow> byte list \<Rightarrow> nat \<Rightarrow> nat \<Rightarrow> hue_entry list \<Rightarrow> error + for_exit" where
  "read_entries 0 f pos idx hues = Inr (Completed f pos idx hues)"
| "read_entries (Suc n) f pos idx hues =
     (let data = take HUE_ENTRY_SIZE f in
      if data = [] \<or> length data < HUE_ENTRY_SIZE then Inr (Returned hues)
      else
        (case unpack data of
           Inl e \<Rightarrow> Inl e
         | Inr (cols, st, en, rawname) \<Rightarrow>
             read_entries n (drop HUE_ENTRY_SIZE f) (pos + length data) (idx + 1)
               (hues @ [\<lparr>index = idx,
                         name = decode_name rawname,
                         start = st,
                         end' = en,
                         colors16 = cols,
                         colorsRGB = map color16_to_rgb888 cols\<rparr>])))"

text \<open>A slot loop that runs to its end has read 88 bytes for each slot.\<close>

lemma read_entries_length:
  "read_entries n f pos idx hues = Inr (Completed f' pos' idx' hues') \<Longrightarrow> length f' + n * HUE_ENTRY_SIZE = length f"
proof (induction n arbitrary: f pos idx hues)
  case 0
  then show ?case by simp
next
  case (Suc n)
  from Suc.prems have len: "HUE_ENTRY_SIZE \<le> length f"
    by (auto simp: Let_def split: if_splits)
  from Suc.prems obtain p i h where
    "read_entries n (drop HUE_ENTRY_SIZE f) p i h = Inr (Completed f' pos' idx' hues')"
    by (auto simp: Let_def split: if_splits sum.splits prod.splits)
  from Suc.IH [OF this] len show ?case by simp
qed

function parse_loop :: "nat \<Rightarrow> byte list \<Rightarrow> nat \<Rightarrow> nat \<Rightarrow> hue_entry list \<Rightarrow> error + hue_entry list" where
  "parse_loop filesize f pos idx hues =
     (let hdr = take HUE_GROUP_HEADER_SIZE f in
      if hdr = [] \<or> length hdr < HUE_GROUP_HEADER_SIZE then Inr hues
      else
        (case read_entries HUES_PER_GROUP (drop HUE_GROUP_HEADER_SIZE f) (pos + length hdr) idx hues of
           Inl e \<Rightarrow> Inl e
         | Inr (Returned hs) \<Rightarrow> Inr hs
         | Inr (Completed f' pos' idx' hues') \<Rightarrow>
             if pos' \<ge> filesize then Inr hues'
             else parse_loop filesize f' pos' idx' hues'))"
  by pat_completeness auto
termination
  apply (relation "measure (\<lambda>(filesize, f, pos, idx, hues). length f)")
   apply simp
  apply (auto dest!: read_entries_length simp: HUE_GROUP_HEADER_SIZE_def HUES_PER_GROUP_def HUE_ENTRY_SIZE_def)
  done

text \<open>
  \<^verbatim>\<open>parse_hues(path)\<close> on a file with the contents \<open>bs\<close>: \<^verbatim>\<open>os.path.getsize\<close> is the
  number of its bytes, the file object starts at its first byte.
\<close>

definition parse_hues :: "byte list \<Rightarrow> error + hue_entry list" where
  "parse_hues bs = parse_loop (length bs) bs 0 1 []"

subsection \<open>The layout of the file\<close>

text \<open>
  A group is 4 + 8 * 88 = 708 bytes. Counting records from 0 over the whole file,
  record \<open>k\<close> starts at \<open>entry_offset k\<close>; a file of \<open>n\<close> bytes holds
  \<open>hue_count n\<close> records in full, a record of a group counting only when the marker of
  the group is there in full. \<open>entry_of i data\<close> is the dict that the loop body builds
  from the index \<open>i\<close> and the 88 bytes \<open>data\<close> of a record.
\<close>

definition entry_offset :: "nat \<Rightarrow> nat" where
  "entry_offset k = 708 * (k div 8) + 4 + 88 * (k mod 8)"

definition hue_count :: "nat \<Rightarrow> nat" where
  "hue_count n = 8 * (n div 708) + (n mod 708 - 4) div 88"

definition entry_of :: "nat \<Rightarrow> byte list \<Rightarrow> hue_entry" where
  "entry_of i data =
     \<lparr>index = i,
      name = decode_name (take 20 (drop 68 data)),
      start = le16 (data ! 64) (data ! 65),
      end' = le16 (data ! 66) (data ! 67),
      colors16 = words16 (take 64 data),
      colorsRGB = map color16_to_rgb888 (words16 (take 64 data))\<rparr>"

subsection \<open>A sample file\<close>

text \<open>
  One group with one record: a marker, the colour word \<open>0x4104\<close> followed by 31 zero
  words, the words \<open>0x1234\<close> and \<open>0x5678\<close>, and the name field \<open>Red\<close> padded with
  NUL bytes; and the entries that the code decodes from it.
\<close>

definition sample_file :: "byte list" where
  "sample_file =
     [0xAA, 0xBB, 0xCC, 0xDD] @
     [0x04, 0x41] @ replicate 62 0 @
     [0x34, 0x12] @ [0x78, 0x56] @
     [0x52, 0x65, 0x64] @ replicate 17 0"

definition sample_hues :: "hue_entry list" where
  "sample_hues =
     [\<lparr>index = 1, name = ''Red'', start = 0x1234, end' = 0x5678,
       colors16 = 0x4104 # replicate 31 0,
       colorsRGB = (131, 65, 32) # replicate 31 (0, 0, 0)\<rparr>]"

subsection \<open>The loop over the record slots\<close>

lemma read_entries_step:
  assumes "88 \<le> length f"
  shows "read_entries (Suc n) f pos idx hues =
         read_entries n (drop 88 f) (pos + 88) (Suc idx) (hues @ [entry_of idx (take 88 f)])"
  using assms by (auto simp add: HUE_ENTRY_SIZE_def unpack_def entry_of_def Let_def)

lemma read_entries_short:
  assumes "length f < 88"
  shows "read_entries (Suc n) f pos idx hues = Inr (Returned hues)"
  using assms by (simp add: HUE_ENTRY_SIZE_def Let_def)

lemma read_entries_all:
  "88 * n \<le> length f \<Longrightarrow>
   read_entries n f pos idx hues =
     Inr (Completed (drop (88 * n) f) (pos + 88 * n) (idx + n)
       (hues @ map (\<lambda>j. entry_of (idx + j) (take 88 (drop (88 * j) f))) [0..<n]))"
proof (induction n arbitrary: f pos idx hues)
  case 0
  then show ?case by simp
next
  case (Suc n)
  then have len: "88 \<le> length f" and rest: "88 * n \<le> length (drop 88 f)"
    by simp_all
  have "map (\<lambda>j. entry_of (idx + j) (take 88 (drop (88 * j) f))) [0..<Suc n] =
        entry_of idx (take 88 f) #
        map (\<lambda>j. entry_of (Suc idx + j) (take 88 (drop (88 * j) (drop 88 f)))) [0..<n]"
    by (simp only: map_upt_Suc) (simp add: add.commute)
  then show ?case
    by (simp only: read_entries_step [OF len] Suc.IH [OF rest]) (simp add: add.commute)
qed

lemma read_entries_cut:
  "length f < 88 * n \<Longrightarrow>
   read_entries n f pos idx hues =
     Inr (Returned
       (hues @ map (\<lambda>j. entry_of (idx + j) (take 88 (drop (88 * j) f))) [0..<length f div 88]))"
proof (induction n arbitrary: f pos idx hues)
  case 0
  then show ?case by simp
next
  case (Suc n)
  show ?case
  proof (cases "length f < 88")
    case True
    then show ?thesis by (simp only: read_entries_short [OF True]) simp
  next
    case False
    then have len: "88 \<le> length f" by simp
    with Suc.prems have rest: "length (drop 88 f) < 88 * n" by simp
    from len have d: "length f div 88 = Suc (length (drop 88 f) div 88)"
      by (simp add: le_div_geq)
    have "map (\<lambda>j. entry_of (idx + j) (take 88 (drop (88 * j) f))) [0..<Suc (length (drop 88 f) div 88)] =
        entry_of idx (take 88 f) #
        map (\<lambda>j. entry_of (Suc idx + j) (take 88 (drop (88 * j) (drop 88 f)))) [0..<length (drop 88 f) div 88]"
      by (simp only: map_upt_Suc) (simp add: add.commute)
    then show ?thesis
      by (simp only: read_entries_step [OF len] Suc.IH [OF rest] d) simp
  qed
qed

subsection \<open>The loop over the groups\<close>

declare parse_loop.simps [simp del]

lemma hue_count_small: "n < 708 \<Longrightarrow> hue_count n = (n - 4) div 88"
  by (simp add: hue_count_def)

lemma hue_count_group: "708 \<le> n \<Longrightarrow> hue_count n = 8 + hue_count (n - 708)"
  by (simp add: hue_count_def le_div_geq le_mod_geq)

lemma entry_offset_small: "k < 8 \<Longrightarrow> entry_offset k = 4 + 88 * k"
  by (simp add: entry_offset_def)

lemma entry_offset_group: "entry_offset (8 + k) = 708 + entry_offset k"
proof -
  have "(8 + k) div 8 = Suc (k div 8)" and "(8 + k) mod 8 = k mod 8"
    by presburger+
  then show ?thesis by (simp add: entry_offset_def)
qed

lemma parse_loop_no_marker:
  "length f < 4 \<Longrightarrow> parse_loop fs f pos idx hues = Inr hues"
  by (subst parse_loop.simps) (simp add: HUE_GROUP_HEADER_SIZE_def Let_def)

lemma parse_loop_cut:
  assumes "4 \<le> length f" and "length f < 708"
  shows "parse_loop fs f pos idx hues =
     Inr (hues @ map (\<lambda>k. entry_of (idx + k) (take 88 (drop (4 + 88 * k) f))) [0..<(length f - 4) div 88])"
proof -
  from assms have "length (drop 4 f) < 88 * 8" by simp
  from read_entries_cut [OF this] assms show ?thesis
    by (subst parse_loop.simps)
       (auto simp add: HUE_GROUP_HEADER_SIZE_def HUES_PER_GROUP_def Let_def add.commute)
qed

lemma parse_loop_group:
  assumes "708 \<le> length f"
  shows "parse_loop fs f pos idx hues =
     (let hues' = hues @ map (\<lambda>k. entry_of (idx + k) (take 88 (drop (4 + 88 * k) f))) [0..<8]
      in if fs \<le> pos + 708 then Inr hues'
         else parse_loop fs (drop 708 f) (pos + 708) (idx + 8) hues')"
proof -
  from assms have "88 * 8 \<le> length (drop 4 f)" by simp
  from read_entries_all [OF this] assms show ?thesis
    by (subst parse_loop.simps)
       (auto simp add: HUE_GROUP_HEADER_SIZE_def HUES_PER_GROUP_def Let_def add.commute)
qed

lemma map_upt_add:
  "map h [0..<a + b] = map h [0..<a] @ map (\<lambda>k. h (a + k)) [0..<b]"
  by (induction b) simp_all

lemma parse_loop_entries:
  "pos + length f = fs \<Longrightarrow>
   parse_loop fs f pos idx hues =
     Inr (hues @ map (\<lambda>k. entry_of (idx + k) (take 88 (drop (entry_offset k) f)))
                  [0..<hue_count (length f)])"
proof (induction "length f" arbitrary: f pos idx hues rule: less_induct)
  case less
  consider (none) "length f < 4" | (cut) "4 \<le> length f" "length f < 708" | (group) "708 \<le> length f"
    by linarith
  then show ?case
  proof cases
    case none
    then have "hue_count (length f) = 0" by (simp add: hue_count_def)
    with none show ?thesis by (simp add: parse_loop_no_marker)
  next
    case cut
    have "map (\<lambda>k. entry_of (idx + k) (take 88 (drop (entry_offset k) f))) [0..<(length f - 4) div 88] =
          map (\<lambda>k. entry_of (idx + k) (take 88 (drop (4 + 88 * k) f))) [0..<(length f - 4) div 88]"
      using cut by (intro map_cong refl) (simp add: entry_offset_small less_mult_imp_div_less)
    with cut show ?thesis
      by (simp add: parse_loop_cut hue_count_small)
  next
    case group
    let ?g = "drop 708 f"
    let ?hues' = "hues @ map (\<lambda>k. entry_of (idx + k) (take 88 (drop (4 + 88 * k) f))) [0..<8]"
    have first: "map (\<lambda>k. entry_of (idx + k) (take 88 (drop (entry_offset k) f))) [0..<8] =
          map (\<lambda>k. entry_of (idx + k) (take 88 (drop (4 + 88 * k) f))) [0..<8]"
      by (intro map_cong refl) (simp add: entry_offset_small)
    have later: "map (\<lambda>k. entry_of (idx + (8 + k)) (take 88 (drop (entry_offset (8 + k)) f))) [0..<m] =
          map (\<lambda>k. entry_of (idx + 8 + k) (take 88 (drop (entry_offset k) ?g))) [0..<m]" for m
      by (simp only: entry_offset_group drop_drop add.assoc) (simp add: add.commute)
    have whole: "hues @ map (\<lambda>k. entry_of (idx + k) (take 88 (drop (entry_offset k) f)))
                  [0..<hue_count (length f)] =
          ?hues' @ map (\<lambda>k. entry_of (idx + 8 + k) (take 88 (drop (entry_offset k) ?g)))
                  [0..<hue_count (length ?g)]"
      using group by (simp only: hue_count_group map_upt_add first later length_drop append_assoc)
    have rec: "parse_loop fs ?g (pos + 708) (idx + 8) ?hues' =
          Inr (?hues' @ map (\<lambda>k. entry_of (idx + 8 + k) (take 88 (drop (entry_offset k) ?g)))
                  [0..<hue_count (length ?g)])"
      using group less.prems by (intro less.hyps) simp_all
    show ?thesis
    proof (cases "fs \<le> pos + 708")
      case True
      with less.prems group have "length ?g = 0" by simp
      then have "hue_count (length ?g) = 0" by (simp add: hue_count_def)
      with True show ?thesis
        by (simp only: whole parse_loop_group [OF group] Let_def) simp
    next
      case False
      then show ?thesis
        by (simp only: whole parse_loop_group [OF group] Let_def rec) simp
    qed
  qed
qed

lemma parse_hues_entries:
  "parse_hues bs =
     Inr (map (\<lambda>k. entry_of (Suc k) (take 88 (drop (entry_offset k) bs))) [0..<hue_count (length bs)])"
  by (simp add: parse_hues_def parse_loop_entries)

subsection \<open>Where the records lie\<close>

lemma entry_within:
  assumes "k < hue_count n"
  shows "entry_offset k + 88 \<le> n"
proof -
  define q r where "q = n div 708" and "r = n mod 708"
  define a b where "a = k div 8" and "b = k mod 8"
  have n: "n = 708 * q + r" and r: "r < 708" by (simp_all add: q_def r_def)
  have k: "k = 8 * a + b" and b: "b < 8" by (simp_all add: a_def b_def)
  define c where "c = (r - 4) div 88"
  have c: "88 * c \<le> r - 4" by (simp add: c_def)
  from r have c7: "c \<le> 7" unfolding c_def by (simp add: div_le_mono [of "r - 4" 703 88, simplified])
  from assms have lt: "8 * a + b < 8 * q + c"
    by (simp add: hue_count_def k [symmetric] q_def r_def c_def)
  show ?thesis
  proof (cases "a < q")
    case True
    then have "708 * (a + 1) \<le> 708 * q" by simp
    with b show ?thesis unfolding entry_offset_def a_def [symmetric] b_def [symmetric] n by simp
  next
    case False
    with lt c7 b have "a = q" and "b < c" by linarith+
    with c show ?thesis unfolding entry_offset_def a_def [symmetric] b_def [symmetric] n by simp
  qed
qed

lemma entry_after_marker:
  assumes "entry_offset k \<le> i" and "i < entry_offset k + 88"
  shows "4 \<le> i mod 708"
proof -
  define a b where "a = k div 8" and "b = k mod 8"
  have b: "b < 8" by (simp add: b_def)
  define d where "d = i - 708 * a"
  from assms have i: "i = 708 * a + d" and d: "4 + 88 * b \<le> d" "d < 4 + 88 * b + 88"
    by (simp_all add: entry_offset_def d_def a_def b_def)
  from d b have "d < 708" by simp
  then have "i mod 708 = d" by (simp add: i)
  with d show ?thesis by simp
qed

lemma length_words16: "length (words16 xs) = length xs div 2"
  by (induction xs rule: words16.induct) simp_all

lemma nth_words16:
  "i < length xs div 2 \<Longrightarrow> words16 xs ! i = le16 (xs ! (2 * i)) (xs ! (2 * i + 1))"
proof (induction xs arbitrary: i rule: words16.induct)
  case (1 lo hi bs)
  then show ?case by (cases i) simp_all
qed simp_all

lemma le16_range: "0 \<le> le16 lo hi \<and> le16 lo hi < 65536"
proof -
  have "uint lo < 256" "uint hi < 256"
    using uint_bounded [of lo] uint_bounded [of hi] by simp_all
  then show ?thesis by (simp add: le16_def)
qed

subsection \<open>A tail that is cut short\<close>

lemma hue_count_append:
  assumes "(length xs mod 708 = 0 \<and> length t < 4) \<or>
           (4 \<le> length xs mod 708 \<and> (length xs mod 708 - 4) mod 88 = 0 \<and> length t < 88)"
  shows "hue_count (length xs + length t) = hue_count (length xs)"
proof -
  define q r where "q = length xs div 708" and "r = length xs mod 708"
  have n: "length xs = 708 * q + r" and r: "r < 708" by (simp_all add: q_def r_def)
  from assms have cases: "(r = 0 \<and> length t < 4) \<or> (4 \<le> r \<and> (r - 4) mod 88 = 0 \<and> length t < 88)"
    by (simp add: r_def)
  define j where "j = (r - 4) div 88"
  show ?thesis
  proof (cases "r = 0")
    case True
    with cases have t: "length t < 4" by simp
    then have "(708 * q + length t) div 708 = q" "(708 * q + length t) mod 708 = length t"
      by simp_all
    with t True show ?thesis by (simp add: hue_count_def n)
  next
    case False
    with cases have r4: "4 \<le> r" and m: "(r - 4) mod 88 = 0" and t: "length t < 88" by simp_all
    from m have rj: "r - 4 = 88 * j" by (simp add: j_def mod_eq_0_iff_dvd)
    with r4 have rj': "r = 4 + 88 * j" by simp
    with r have "j \<le> 7" by simp
    with t rj' have lt: "r + length t < 708" by simp
    then have "(708 * q + (r + length t)) div 708 = q" "(708 * q + (r + length t)) mod 708 = r + length t"
      by simp_all
    moreover have "(r + length t - 4) div 88 = j" using rj' t by simp
    moreover have "(708 * q + r) div 708 = q" "(708 * q + r) mod 708 = r" using r by simp_all
    ultimately show ?thesis by (simp add: hue_count_def n j_def add.assoc)
  qed
qed

lemma parse_hues_append:
  assumes "hue_count (length xs + length t) = hue_count (length xs)"
  shows "parse_hues (xs @ t) = parse_hues xs"
proof -
  have "map (\<lambda>k. entry_of (Suc k) (take 88 (drop (entry_offset k) (xs @ t)))) [0..<hue_count (length xs)] =
        map (\<lambda>k. entry_of (Suc k) (take 88 (drop (entry_offset k) xs))) [0..<hue_count (length xs)]"
  proof (intro map_cong refl)
    fix k assume "k \<in> set [0..<hue_count (length xs)]"
    then have "k < hue_count (length xs)" by simp
    from entry_within [OF this] show "entry_of (Suc k) (take 88 (drop (entry_offset k) (xs @ t))) =
      entry_of (Suc k) (take 88 (drop (entry_offset k) xs))"
      by simp
  qed
  with assms show ?thesis by (simp add: parse_hues_entries)
qed

section \<open>The colour codec\<close>

lemma and_31: "(k::int) AND 0x1F = take_bit 5 k"
  using take_bit_eq_mask [of 5 k] by (simp add: mask_eq_exp_minus_1)

lemma low15:
  "take_bit 5 (drop_bit 10 (take_bit 15 (x::int))) = take_bit 5 (drop_bit 10 x)"
  "take_bit 5 (drop_bit 5 (take_bit 15 (x::int))) = take_bit 5 (drop_bit 5 x)"
  "take_bit 5 (take_bit 15 (x::int)) = take_bit 5 x"
  by (simp_all add: drop_bit_take_bit)

lemma channel_range:
  "0 \<le> take_bit 5 (k::int) * 255 div 31 \<and> take_bit 5 k * 255 div 31 \<le> 255"
proof -
  have lo: "0 \<le> take_bit 5 k" by simp
  have "take_bit 5 k < 2 ^ 5" by (rule take_bit_int_less_exp)
  then have "take_bit 5 k * 255 \<le> 7905" by simp
  then have "take_bit 5 k * 255 div 31 \<le> 7905 div 31" by (rule zdiv_mono1) simp
  moreover from lo have "0 \<le> take_bit 5 k * 255 div 31"
    by (simp add: pos_imp_zdiv_nonneg_iff)
  ultimately show ?thesis by simp
qed

lemma color16_fields:
  "color16_to_rgb888 c =
     (take_bit 5 (drop_bit 10 c) * 255 div 31,
      take_bit 5 (drop_bit 5 c) * 255 div 31,
      take_bit 5 c * 255 div 31)"
  by (simp add: color16_to_rgb888_def Let_def and_31)

lemma and_7FFF:
  fixes w :: "16 word"
  shows "uint (w AND 0x7FFF) = take_bit 15 (uint w)"
  using take_bit_eq_mask [of 15 "uint w"] by (simp add: unsigned_and_eq mask_eq_exp_minus_1)

text \<open>
  Claim C1. For every 16-bit unsigned word \<open>w\<close>, \<open>color16_to_rgb888\<close> returns the
  three channels \<open>((w >> 10) & 0x1F) * 255 div 31\<close>, \<open>((w >> 5) & 0x1F) * 255 div 31\<close> and
  \<open>(w & 0x1F) * 255 div 31\<close>: bits 10 to 14 are the red field, bits 5 to 9 the green one,
  bits 0 to 4 the blue one, and bit 15 is ignored. Every channel lies between 0 and 255,
  the field 0 gives 0 and the field 31 gives 255. The function has no error path.
\<close>

theorem color16_to_rgb888_decodes:
  fixes w :: "16 word"
  shows "color16_to_rgb888 (uint w) =
      (uint (drop_bit 10 w AND 0x1F) * 255 div 31,
       uint (drop_bit 5 w AND 0x1F) * 255 div 31,
       uint (w AND 0x1F) * 255 div 31)
    \<and> color16_to_rgb888 (uint w) =
      (uint w div 1024 mod 32 * 255 div 31, uint w div 32 mod 32 * 255 div 31, uint w mod 32 * 255 div 31)
    \<and> color16_to_rgb888 (uint (w AND 0x7FFF)) = color16_to_rgb888 (uint w)
    \<and> (case color16_to_rgb888 (uint w) of (r, g, b) \<Rightarrow>
          0 \<le> r \<and> r \<le> 255 \<and> 0 \<le> g \<and> g \<le> 255 \<and> 0 \<le> b \<and> b \<le> 255)
    \<and> color16_to_rgb888 0 = (0, 0, 0)
    \<and> color16_to_rgb888 0x7FFF = (255, 255, 255)"
proof (intro conjI)
  show "color16_to_rgb888 (uint w) =
      (uint (drop_bit 10 w AND 0x1F) * 255 div 31,
       uint (drop_bit 5 w AND 0x1F) * 255 div 31,
       uint (w AND 0x1F) * 255 div 31)"
    by (simp add: color16_fields unsigned_and_eq unsigned_drop_bit_eq and_31 drop_bit_take_bit)
  show "color16_to_rgb888 (uint w) =
      (uint w div 1024 mod 32 * 255 div 31, uint w div 32 mod 32 * 255 div 31, uint w mod 32 * 255 div 31)"
    by (simp add: color16_fields take_bit_eq_mod drop_bit_eq_div)
  show "color16_to_rgb888 (uint (w AND 0x7FFF)) = color16_to_rgb888 (uint w)"
    by (simp only: and_7FFF color16_fields low15)
  show "case color16_to_rgb888 (uint w) of (r, g, b) \<Rightarrow>
          0 \<le> r \<and> r \<le> 255 \<and> 0 \<le> g \<and> g \<le> 255 \<and> 0 \<le> b \<and> b \<le> 255"
    using channel_range [of "drop_bit 10 (uint w)"] channel_range [of "drop_bit 5 (uint w)"]
      channel_range [of "uint w"]
    by (simp add: color16_fields)
  show "color16_to_rgb888 0 = (0, 0, 0)"
    by (simp add: color16_fields)
  show "color16_to_rgb888 0x7FFF = (255, 255, 255)"
    by (simp add: color16_fields take_bit_eq_mod drop_bit_eq_div)
qed

text \<open>
  Claim C2, as the specification states it: the field value 16 gives the channel 130, and
  the colour word \<open>0b0_10000_01000_00100\<close> decodes to (130, 65, 32). The code computes
  \<open>16 * 255 div 31\<close>, which is 131.
\<close>

theorem field16_not_130:
  "color16_to_rgb888 0x4104 = (131, 65, 32) \<and> color16_to_rgb888 0x4104 \<noteq> (130, 65, 32)"
  by (simp add: color16_fields take_bit_eq_mod drop_bit_eq_div)

text \<open>
  Claim C2, amended: the field value 16 gives the channel 131, in each of the three
  positions, and the colour word \<open>0b0_10000_01000_00100\<close> (R = 16, G = 8, B = 4) decodes
  to (131, 65, 32).
\<close>

theorem field16_is_131:
  "color16_to_rgb888 16 = (0, 0, 131)
   \<and> color16_to_rgb888 (16 * 32) = (0, 131, 0)
   \<and> color16_to_rgb888 (16 * 1024) = (131, 0, 0)
   \<and> color16_to_rgb888 (16 * 1024 + 8 * 32 + 4) = (131, 65, 32)"
  by (simp add: color16_fields take_bit_eq_mod drop_bit_eq_div)

section \<open>The reader\<close>

lemma nth_parse_hues:
  assumes "parse_hues bs = Inr hs" and "k < length hs"
  shows "hs ! k = entry_of (Suc k) (take 88 (drop (entry_offset k) bs))"
    and "entry_offset k + 88 \<le> length bs"
proof -
  from assms(1) have hs: "hs = map (\<lambda>k. entry_of (Suc k) (take 88 (drop (entry_offset k) bs)))
      [0..<hue_count (length bs)]"
    by (simp add: parse_hues_entries)
  with assms(2) have k: "k < hue_count (length bs)" by simp
  with hs show "hs ! k = entry_of (Suc k) (take 88 (drop (entry_offset k) bs))" by simp
  from k show "entry_offset k + 88 \<le> length bs" by (rule entry_within)
qed

text \<open>
  Claim C3. Truncation is absorbed and never raised as an error. Let \<open>xs\<close> end where
  a group marker is expected (its length is a multiple of 708) and let fewer than 4 bytes
  \<open>t\<close> follow, or let \<open>xs\<close> end at a record slot inside a group and let fewer than
  88 bytes \<open>t\<close> follow. Then decoding \<open>xs @ t\<close> returns normally, with exactly the
  entries of \<open>xs\<close>: the whole decode stops at the cut. A file of 708 + 50 bytes yields
  the 8 entries of the first group.
\<close>

theorem truncation_absorbed:
  assumes "(length xs mod 708 = 0 \<and> length t < 4) \<or>
           (4 \<le> length xs mod 708 \<and> (length xs mod 708 - 4) mod 88 = 0 \<and> length t < 88)"
  shows "\<exists>hs. parse_hues (xs @ t) = Inr hs \<and> parse_hues xs = Inr hs
           \<and> length hs = 8 * (length xs div 708) + (length xs mod 708 - 4) div 88"
proof -
  from assms have "hue_count (length xs + length t) = hue_count (length xs)"
    by (rule hue_count_append)
  then have "parse_hues (xs @ t) = parse_hues xs" by (rule parse_hues_append)
  then show ?thesis by (simp add: parse_hues_entries hue_count_def)
qed

theorem truncation_absorbed_witness:
  "4 \<le> length (replicate 712 (0 :: byte)) mod 708
   \<and> (length (replicate 712 (0 :: byte)) mod 708 - 4) mod 88 = 0
   \<and> length (replicate 46 (0 :: byte)) < 88
   \<and> length (replicate 712 (0 :: byte) @ replicate 46 0) = 708 + 50
   \<and> (\<exists>hs. parse_hues (replicate 712 0 @ replicate 46 0) = Inr hs
         \<and> parse_hues (replicate 712 0) = Inr hs \<and> length hs = 8)"
  using truncation_absorbed [of "replicate 712 0" "replicate 46 0"] by simp

text \<open>
  Claim C4. For a source whose length is an exact multiple of 708, \<open>parse_hues\<close> returns
  exactly 8 entries for each 708 bytes, whatever the byte values are.
\<close>

theorem whole_groups_count:
  assumes "length bs mod 708 = 0"
  shows "\<exists>hs. parse_hues bs = Inr hs \<and> length hs = 8 * (length bs div 708)"
  using assms by (simp add: parse_hues_entries hue_count_def)

theorem whole_groups_count_witness:
  "length (replicate 1416 (7 :: byte)) mod 708 = 0 \<and>
   (\<exists>hs. parse_hues (replicate 1416 7) = Inr hs \<and> length hs = 16)"
  using whole_groups_count [of "replicate 1416 7"] by simp

text \<open>
  Claim C6. For a source of zero bytes \<open>parse_hues\<close> returns the empty sequence, and for
  no source does it take the error path of the model: the only raise in the code, that
  of \<open>unpack\<close> on a buffer of the wrong size, is never reached.
\<close>

theorem empty_source_no_error:
  "parse_hues [] = Inr [] \<and> (\<exists>hs. parse_hues bs = Inr hs)"
  by (simp add: parse_hues_entries hue_count_def)

text \<open>
  Claim C7. The index of the k-th entry of the output, counting from 1, is k: the indices
  are 1, 2, 3 and so on across the whole file, whatever the group boundaries, and so they
  are unique.
\<close>

theorem index_sequential:
  "\<exists>hs. parse_hues bs = Inr hs \<and> map index hs = [1..<Suc (length hs)] \<and> distinct (map index hs)"
proof -
  define hs where "hs = map (\<lambda>k. entry_of (Suc k) (take 88 (drop (entry_offset k) bs))) [0..<hue_count (length bs)]"
  have p: "parse_hues bs = Inr hs" unfolding hs_def by (rule parse_hues_entries)
  have len: "length hs = hue_count (length bs)" by (simp add: hs_def)
  have "map index hs = map Suc [0..<hue_count (length bs)]"
    by (simp add: hs_def entry_of_def comp_def)
  also have "\<dots> = [1..<Suc (length hs)]"
    by (simp only: map_Suc_upt len One_nat_def)
  finally have m: "map index hs = [1..<Suc (length hs)]" .
  then have d: "distinct (map index hs)" by (simp only: distinct_upt)
  from p m d show ?thesis by (intro exI [of _ hs] conjI)
qed

text \<open>
  Claim C9. The group markers are never interpreted: two sources of the same length that
  agree on every byte outside the marker positions (the first 4 bytes of each 708) decode
  to the same sequence.
\<close>

theorem markers_not_interpreted:
  assumes "length bs = length bs'"
    and "\<forall>i<length bs. 4 \<le> i mod 708 \<longrightarrow> bs ! i = bs' ! i"
  shows "parse_hues bs = parse_hues bs'"
proof -
  have "map (\<lambda>k. entry_of (Suc k) (take 88 (drop (entry_offset k) bs))) [0..<hue_count (length bs)] =
        map (\<lambda>k. entry_of (Suc k) (take 88 (drop (entry_offset k) bs'))) [0..<hue_count (length bs)]"
  proof (intro map_cong refl)
    fix k assume "k \<in> set [0..<hue_count (length bs)]"
    then have "k < hue_count (length bs)" by simp
    then have within: "entry_offset k + 88 \<le> length bs" by (rule entry_within)
    have "take 88 (drop (entry_offset k) bs) = take 88 (drop (entry_offset k) bs')"
    proof (rule nth_equalityI)
      show "length (take 88 (drop (entry_offset k) bs)) = length (take 88 (drop (entry_offset k) bs'))"
        using assms(1) by simp
    next
      fix i assume "i < length (take 88 (drop (entry_offset k) bs))"
      then have i: "i < 88" by simp
      then have "4 \<le> (entry_offset k + i) mod 708"
        by (intro entry_after_marker [of k]) simp_all
      moreover from i within have "entry_offset k + i < length bs" by simp
      ultimately have "bs ! (entry_offset k + i) = bs' ! (entry_offset k + i)"
        using assms(2) by blast
      with i within assms(1)
      show "take 88 (drop (entry_offset k) bs) ! i = take 88 (drop (entry_offset k) bs') ! i"
        by simp
    qed
    then show "entry_of (Suc k) (take 88 (drop (entry_offset k) bs)) =
               entry_of (Suc k) (take 88 (drop (entry_offset k) bs'))"
      by simp
  qed
  with assms(1) show ?thesis by (simp add: parse_hues_entries)
qed

theorem markers_not_interpreted_witness:
  "length (replicate 708 (0 :: byte)) = length ([1, 2, 3, 4] @ replicate 704 (0 :: byte))
   \<and> replicate 708 (0 :: byte) \<noteq> [1, 2, 3, 4] @ replicate 704 0
   \<and> parse_hues (replicate 708 0) = parse_hues ([1, 2, 3, 4] @ replicate 704 0)"
proof -
  have len: "length (replicate 708 (0 :: byte)) = length ([1, 2, 3, 4] @ replicate 704 (0 :: byte))"
    by simp
  have agree: "\<forall>i<length (replicate 708 (0 :: byte)). 4 \<le> i mod 708 \<longrightarrow>
          replicate 708 (0 :: byte) ! i = ([1, 2, 3, 4] @ replicate 704 0) ! i"
    by (simp add: nth_append)
  have differ: "replicate 708 (0 :: byte) \<noteq> [1, 2, 3, 4] @ replicate 704 0"
  proof
    assume "replicate 708 (0 :: byte) = [1, 2, 3, 4] @ replicate 704 0"
    then have "hd (replicate 708 (0 :: byte)) = hd ([1, 2, 3, 4] @ replicate 704 0)" by (rule arg_cong)
    then show False by simp
  qed
  show ?thesis
    by (rule conjI [OF len conjI [OF differ markers_not_interpreted [OF len agree]]])
qed

lemma record_bytes:
  assumes "off + 88 \<le> length bs"
  shows "take 20 (drop 68 (take 88 (drop off bs))) = take 20 (drop (off + 68) bs)"
    and "i < 88 \<Longrightarrow> take 88 (drop off bs) ! i = bs ! (off + i)"
    and "length (take 64 (take 88 (drop off bs))) = 64"
    and "i < 64 \<Longrightarrow> take 64 (take 88 (drop off bs)) ! i = bs ! (off + i)"
  using assms by (simp_all add: drop_take add.commute min_def)

text \<open>
  Claim C5. Every entry of the output is complete. Entry \<open>k\<close> (from 0) comes from the 88
  bytes at \<open>entry_offset k\<close>, all of which are in the source, so a record read in part
  never appears. Its index, name, start, end, colors16 and colorsRGB are all there:
  colors16 and colorsRGB have 32 elements, colors16 holds the 32 little-endian words of
  the record in their order, colorsRGB is the decode of colors16 slot by slot, and start
  and end are the two words that follow, unchanged.
\<close>

theorem entries_complete:
  assumes "parse_hues bs = Inr hs" and "k < length hs"
  shows "entry_offset k + 88 \<le> length bs
    \<and> index (hs ! k) = Suc k
    \<and> name (hs ! k) = decode_name (take 20 (drop (entry_offset k + 68) bs))
    \<and> start (hs ! k) = le16 (bs ! (entry_offset k + 64)) (bs ! (entry_offset k + 65))
    \<and> end' (hs ! k) = le16 (bs ! (entry_offset k + 66)) (bs ! (entry_offset k + 67))
    \<and> length (colors16 (hs ! k)) = 32
    \<and> length (colorsRGB (hs ! k)) = 32
    \<and> colorsRGB (hs ! k) = map color16_to_rgb888 (colors16 (hs ! k))
    \<and> (\<forall>i<32. colors16 (hs ! k) ! i =
                  le16 (bs ! (entry_offset k + 2 * i)) (bs ! (entry_offset k + 2 * i + 1))
              \<and> colorsRGB (hs ! k) ! i = color16_to_rgb888 (colors16 (hs ! k) ! i))"
proof -
  let ?off = "entry_offset k"
  let ?data = "take 88 (drop ?off bs)"
  from assms have e: "hs ! k = entry_of (Suc k) ?data" and within: "?off + 88 \<le> length bs"
    by (rule nth_parse_hues)+
  have len64: "length (take 64 ?data) = 64"
    using within by (rule record_bytes(3))
  have "length (words16 (take 64 ?data)) = 64 div 2"
    by (simp only: length_words16 len64)
  also have "\<dots> = 32" by simp
  finally have len32: "length (words16 (take 64 ?data)) = 32" .
  have cols: "words16 (take 64 ?data) ! i = le16 (bs ! (?off + 2 * i)) (bs ! (?off + 2 * i + 1))"
    if "i < 32" for i
  proof -
    have "length (take 64 ?data) div 2 = 64 div 2" by (simp only: len64)
    also have "\<dots> = (32 :: nat)" by simp
    finally have "length (take 64 ?data) div 2 = 32" .
    with that have "i < length (take 64 ?data) div 2" by (simp only:)
    then have "words16 (take 64 ?data) ! i = le16 (take 64 ?data ! (2 * i)) (take 64 ?data ! (2 * i + 1))"
      by (rule nth_words16)
    moreover from that have "2 * i < 64" "2 * i + 1 < 64" by simp_all
    then have "take 64 ?data ! (2 * i) = bs ! (?off + 2 * i)"
      "take 64 ?data ! (2 * i + 1) = bs ! (?off + (2 * i + 1))"
      using within by (simp_all only: record_bytes(4))
    ultimately show ?thesis by (simp only: add.assoc)
  qed
  have c16: "colors16 (hs ! k) = words16 (take 64 ?data)"
    and rgb: "colorsRGB (hs ! k) = map color16_to_rgb888 (words16 (take 64 ?data))"
    and idx: "index (hs ! k) = Suc k"
    and nm: "name (hs ! k) = decode_name (take 20 (drop 68 ?data))"
    and st: "start (hs ! k) = le16 (?data ! 64) (?data ! 65)"
    and en: "end' (hs ! k) = le16 (?data ! 66) (?data ! 67)"
    by (simp_all add: e entry_of_def)
  have b64: "?data ! 64 = bs ! (?off + 64)" and b65: "?data ! 65 = bs ! (?off + 65)"
    and b66: "?data ! 66 = bs ! (?off + 66)" and b67: "?data ! 67 = bs ! (?off + 67)"
    using within by (simp_all only: record_bytes(2) [OF within])
  show ?thesis
  proof (intro conjI allI impI)
    show "?off + 88 \<le> length bs" by (rule within)
    show "index (hs ! k) = Suc k" by (rule idx)
    show "name (hs ! k) = decode_name (take 20 (drop (?off + 68) bs))"
      by (simp only: nm record_bytes(1) [OF within])
    show "start (hs ! k) = le16 (bs ! (?off + 64)) (bs ! (?off + 65))"
      by (simp only: st b64 b65)
    show "end' (hs ! k) = le16 (bs ! (?off + 66)) (bs ! (?off + 67))"
      by (simp only: en b66 b67)
    show "length (colors16 (hs ! k)) = 32" by (simp only: c16 len32)
    show "length (colorsRGB (hs ! k)) = 32" by (simp only: rgb length_map len32)
    show "colorsRGB (hs ! k) = map color16_to_rgb888 (colors16 (hs ! k))"
      by (simp only: rgb c16)
  next
    fix i :: nat assume i: "i < 32"
    then show "colors16 (hs ! k) ! i = le16 (bs ! (?off + 2 * i)) (bs ! (?off + 2 * i + 1))"
      by (simp only: c16 cols)
    from i have "i < length (words16 (take 64 ?data))" by (simp only: len32)
    then show "colorsRGB (hs ! k) ! i = color16_to_rgb888 (colors16 (hs ! k) ! i)"
      by (simp only: rgb c16 nth_map)
  qed
qed

theorem entries_complete_witness:
  "parse_hues sample_file = Inr sample_hues
    \<and> 0 < length sample_hues
    \<and> (0 :: nat) < 32
    \<and> entry_offset 0 + 88 \<le> length sample_file
    \<and> index (sample_hues ! 0) = Suc 0
    \<and> name (sample_hues ! 0) = decode_name (take 20 (drop (entry_offset 0 + 68) sample_file))
    \<and> start (sample_hues ! 0) = le16 (sample_file ! (entry_offset 0 + 64)) (sample_file ! (entry_offset 0 + 65))
    \<and> end' (sample_hues ! 0) = le16 (sample_file ! (entry_offset 0 + 66)) (sample_file ! (entry_offset 0 + 67))
    \<and> length (colors16 (sample_hues ! 0)) = 32
    \<and> length (colorsRGB (sample_hues ! 0)) = 32
    \<and> colorsRGB (sample_hues ! 0) = map color16_to_rgb888 (colors16 (sample_hues ! 0))
    \<and> colors16 (sample_hues ! 0) ! 0 =
          le16 (sample_file ! (entry_offset 0 + 2 * 0)) (sample_file ! (entry_offset 0 + 2 * 0 + 1))
    \<and> colorsRGB (sample_hues ! 0) ! 0 = color16_to_rgb888 (colors16 (sample_hues ! 0) ! 0)"
proof -
  have decoded: "parse_hues sample_file = Inr sample_hues"
    by code_simp
  have first: "0 < length sample_hues"
    by (simp add: sample_hues_def)
  have slot: "(0 :: nat) < 32"
    by simp
  from decoded first slot entries_complete [OF decoded first] show ?thesis
    by blast
qed

section \<open>The name field\<close>

lemma split_nul_append_nul: "split_nul (xs @ 0 # ys) = split_nul xs"
  by (induction xs) (simp_all add: split_nul_def)




lemma strip_no_trailing: "takeWhile P (dropWhile P xs) = []"
  by (cases "dropWhile P xs = []") (simp_all add: takeWhile_eq_Nil_iff hd_dropWhile)

lemma strip_trailing: "takeWhile isspace (rev (strip s)) = []"
  by (simp add: strip_def strip_no_trailing)

lemma strip_leading: "takeWhile isspace (strip s) = []"
proof (cases "strip s = []")
  case True
  then show ?thesis by simp
next
  case False
  define u where "u = dropWhile isspace s"
  define v where "v = dropWhile isspace (rev u)"
  have s: "strip s = rev v" by (simp add: strip_def u_def v_def)
  with False have v: "v \<noteq> []" by simp
  then have u: "u \<noteq> []" by (auto simp: v_def)
  have "v = drop (length (takeWhile isspace (rev u))) (rev u)"
    by (simp add: v_def dropWhile_eq_drop)
  moreover from v have "length (takeWhile isspace (rev u)) < length (rev u)"
    unfolding v_def by (metis dropWhile_eq_drop drop_eq_Nil not_le)
  ultimately have "last v = last (rev u)" by (metis last_drop)
  with u have "last v = hd u" by (simp add: last_rev)
  moreover from u have "\<not> isspace (hd u)" unfolding u_def by (rule hd_dropWhile)
  ultimately have "\<not> isspace (hd (rev v))" using v by (simp add: hd_rev)
  then show ?thesis by (simp add: s takeWhile_eq_Nil_iff)
qed

lemma set_strip: "set (strip s) \<subseteq> set s"
proof -
  have "set (strip s) \<subseteq> set (dropWhile isspace s)"
    unfolding strip_def by (auto dest: set_dropWhileD)
  also have "\<dots> \<subseteq> set s" by (auto dest: set_dropWhileD)
  finally show ?thesis .
qed

lemma code_points:
  "map of_char (decode_ascii_ignore bs) = map unat (filter (\<lambda>b. b < 128) bs)"
proof -
  have "unat b mod 256 = unat b" for b :: byte
    using unsigned_less [of b, where ?'a = nat] by simp
  then show ?thesis by (simp add: decode_ascii_ignore_def comp_def)
qed

lemma no_nul: "(0 :: nat) \<notin> of_char ` set (decode_name bs)"
proof
  assume "(0 :: nat) \<in> of_char ` set (decode_name bs)"
  then obtain c where c: "c \<in> set (decode_name bs)" and z: "of_char c = (0 :: nat)" by auto
  from c set_strip have "c \<in> set (decode_ascii_ignore (split_nul bs))"
    unfolding decode_name_def by blast
  with z have "(0 :: nat) \<in> set (map of_char (decode_ascii_ignore (split_nul bs)))"
    by force
  then have "(0 :: nat) \<in> unat ` set (split_nul bs)"
    by (auto simp: code_points)
  then obtain b where "b \<in> set (takeWhile (\<lambda>b. b \<noteq> 0) bs)" and "unat b = 0"
    by (auto simp: split_nul_def)
  then show False by (auto dest: set_takeWhileD simp: unat_eq_0)
qed

lemma no_nul_char: "CHR 0x00 \<notin> set (decode_name bs)"
proof
  assume "CHR 0x00 \<in> set (decode_name bs)"
  then have "of_char (CHR 0x00) \<in> (of_char ` set (decode_name bs) :: nat set)" by (rule imageI)
  with no_nul [of bs] show False by simp
qed






text \<open>
  Claim C10. The decoded name never contains a NUL: the field is cut at its first NUL and
  everything after it is dropped, printable bytes too; and whitespace is stripped at the
  start as well as at the end of what is left.
\<close>

theorem name_cut_at_first_nul:
  "CHR 0x00 \<notin> set (decode_name bs)
   \<and> decode_name (xs @ 0 # ys) = decode_name xs
   \<and> decode_name ([0x41, 0x42, 0x00, 0x43, 0x44] @ replicate 15 0) = ''AB''
   \<and> takeWhile isspace (decode_name bs) = []
   \<and> takeWhile isspace (rev (decode_name bs)) = []
   \<and> decode_name ([0x20, 0x09, 0x41, 0x20, 0x42, 0x0A, 0x20, 0x00, 0x43] @ replicate 11 0) = ''A B''"
proof (intro conjI)
  show "CHR 0x00 \<notin> set (decode_name bs)"
    by (rule no_nul_char)
  show "decode_name (xs @ 0 # ys) = decode_name xs"
    by (simp only: decode_name_def split_nul_append_nul)
  show "decode_name ([0x41, 0x42, 0x00, 0x43, 0x44] @ replicate 15 0) = ''AB''"
    by code_simp
  show "takeWhile isspace (decode_name bs) = []"
    by (simp only: decode_name_def strip_leading)
  show "takeWhile isspace (rev (decode_name bs)) = []"
    by (simp only: decode_name_def strip_trailing)
  show "decode_name ([0x20, 0x09, 0x41, 0x20, 0x42, 0x0A, 0x20, 0x00, 0x43] @ replicate 11 0) = ''A B''"
    by code_simp
qed

end
